theory Spec2Isabelle
  imports Main "HOL-Library.Word"
begin

unbundle bit_operations_syntax

section \<open>Data model of package imghash (average.go)\<close>

text \<open>
  Go's \<open>int\<close> is taken as the 64-bit signed integer of a 64-bit platform: a
  \<open>64 word\<close> read through \<open>sint\<close> and compared with \<open><s\<close>. \<open>uint32\<close> and
  \<open>uint64\<close> are words read through \<open>unat\<close>; \<open>+\<close> and \<open>*\<close> wrap around as in Go.
\<close>

type_synonym go_int = "64 word"
type_synonym uint32 = "32 word"
type_synonym uint64 = "64 word"

text \<open>\<open>image.Point\<close> and \<open>image.Rectangle\<close>. The fields \<open>Min\<close> and \<open>Max\<close> of the
  rectangle are suffixed, since HOL has constants of these names.\<close>

record Point =
  X :: go_int
  Y :: go_int

record Rectangle =
  Min_pt :: Point
  Max_pt :: Point

text \<open>A \<open>color.Color\<close> is represented by what its method \<open>RGBA()\<close> returns: the four
  values \<open>(r, g, b, a)\<close>, each a \<open>uint32\<close>.\<close>

type_synonym Color = "uint32 \<times> uint32 \<times> uint32 \<times> uint32"

text \<open>\<open>image.Image\<close>: the methods \<open>Bounds()\<close> and \<open>At(x, y)\<close>.\<close>

record Image =
  Bounds :: Rectangle
  At :: "go_int \<Rightarrow> go_int \<Rightarrow> Color"

text \<open>\<open>r, _, _, _ = c.RGBA()\<close>: the first of the four values.\<close>

definition RGBA_r :: "Color \<Rightarrow> uint32" where
  "RGBA_r c = (case c of (r, _, _, _) \<Rightarrow> r)"

section \<open>computeMean\<close>

text \<open>The inner loop of \<open>computeMean\<close> (lines 47 to 50), from column \<open>x\<close> on, with
  the accumulator \<open>m\<close>.\<close>

function meanCols :: "Image \<Rightarrow> go_int \<Rightarrow> go_int \<Rightarrow> uint32 \<Rightarrow> uint32" where
  "meanCols img y x m =
     (if x <s X (Max_pt (Bounds img))
      then meanCols img y (x + 1) (m + RGBA_r (At img x y))
      else m)"
  by pat_completeness auto

text \<open>The outer loop of \<open>computeMean\<close> (lines 46 to 51), from row \<open>y\<close> on.\<close>

function meanRows :: "Image \<Rightarrow> go_int \<Rightarrow> uint32 \<Rightarrow> uint32" where
  "meanRows img y m =
     (if y <s Y (Max_pt (Bounds img))
      then meanRows img (y + 1) (meanCols img y (X (Min_pt (Bounds img))) m)
      else m)"
  by pat_completeness auto

section \<open>computeHash\<close>

text \<open>The inner loop of \<open>computeHash\<close> (lines 67 to 75). The state is the pair of
  the variables \<open>value\<close> and \<open>bit\<close>. A shift of a \<open>uint64\<close> by 64 or more gives 0 in
  Go, as \<open>push_bit\<close> does on a \<open>64 word\<close>; \<open>bit++\<close> wraps around at \<open>2 ^ 64\<close>.\<close>

function hashCols ::
  "Image \<Rightarrow> uint32 \<Rightarrow> go_int \<Rightarrow> go_int \<Rightarrow> uint64 \<times> uint64 \<Rightarrow> uint64 \<times> uint64" where
  "hashCols img mean y x (val, bitpos) =
     (if x <s X (Max_pt (Bounds img))
      then hashCols img mean y (x + 1)
             (if mean < RGBA_r (At img x y) then val OR push_bit (unat bitpos) 1 else val,
              bitpos + 1)
      else (val, bitpos))"
  by pat_completeness auto

text \<open>The outer loop of \<open>computeHash\<close> (lines 66 to 76).\<close>

function hashRows ::
  "Image \<Rightarrow> uint32 \<Rightarrow> go_int \<Rightarrow> uint64 \<times> uint64 \<Rightarrow> uint64 \<times> uint64" where
  "hashRows img mean y st =
     (if y <s Y (Max_pt (Bounds img))
      then hashRows img mean (y + 1) (hashCols img mean y (X (Min_pt (Bounds img))) st)
      else st)"
  by pat_completeness auto

section \<open>Termination of the loops\<close>

lemma sint_succ:
  fixes x m :: go_int
  assumes "x <s m"
  shows "sint (x + 1) = sint x + 1"
proof -
  have "sint x < sint m" using assms by (simp add: word_sless_alt)
  moreover have "sint m < 2 ^ 63" using sint_lt [of m] by simp
  moreover have "- (2 ^ 63) \<le> sint x" using sint_ge [of x] by simp
  ultimately have "signed_take_bit 63 (sint x + 1) = sint x + 1"
    by (intro signed_take_bit_int_eq_self) auto
  then show ?thesis by (simp add: sint_word_ariths)
qed

lemma sless_sint:
  fixes x m :: go_int
  shows "x <s m \<Longrightarrow> sint x < sint m"
  by (simp add: word_sless_alt)

lemma sint_succ_less:
  fixes x m :: go_int
  shows "x <s m \<Longrightarrow> sint x < sint (x + 1)"
  using sint_succ [of x m] by simp

termination meanCols
  by (relation "measure (\<lambda>(img, y, x, m). nat (sint (X (Max_pt (Bounds img))) - sint x))")
     (auto intro: sless_sint sint_succ_less)

termination meanRows
  by (relation "measure (\<lambda>(img, y, m). nat (sint (Y (Max_pt (Bounds img))) - sint y))")
     (auto intro: sless_sint sint_succ_less)

termination hashCols
  by (relation "measure (\<lambda>(img, mean, y, x, st). nat (sint (X (Max_pt (Bounds img))) - sint x))")
     (auto intro: sless_sint sint_succ_less)

termination hashRows
  by (relation "measure (\<lambda>(img, mean, y, st). nat (sint (Y (Max_pt (Bounds img))) - sint y))")
     (auto intro: sless_sint sint_succ_less)

declare meanCols.simps [simp del] meanRows.simps [simp del]
  hashCols.simps [simp del] hashRows.simps [simp del]

text \<open>\<open>computeMean\<close> (lines 33 to 54): \<open>w\<close> and \<open>h\<close> are \<open>int\<close> differences, their
  product is converted to \<open>uint32\<close> (the low 32 bits), and the sum is divided by it
  unless it is 0.\<close>

definition computeMean :: "Image \<Rightarrow> uint32" where
  "computeMean img =
     (let rect = Bounds img;
          w = X (Max_pt rect) - X (Min_pt rect);
          h = Y (Max_pt rect) - Y (Min_pt rect);
          c = (ucast (w * h) :: uint32)
      in if c = 0 then 0
         else meanRows img (Y (Min_pt rect)) 0 div c)"

text \<open>\<open>computeHash\<close> (lines 59 to 79): \<open>value\<close> and \<open>bit\<close> start at 0, and \<open>value\<close> is
  returned.\<close>

definition computeHash :: "Image \<Rightarrow> uint32 \<Rightarrow> uint64" where
  "computeHash img mean = fst (hashRows img mean (Y (Min_pt (Bounds img))) (0, 0))"

section \<open>Compute and its helpers\<close>

text \<open>Modelled from the spec: the helper \<open>grayscale\<close>, which \<open>Compute\<close> calls on the
  resized image (line 27), is not among the sources. The spec (4.1, grayscale policy (b),
  which it names the reference behaviour) has the multi-channel pixels retained, with no
  luminance-weighted value computed before the mean and hash stages read the red
  channel: the image is returned as it is.\<close>

definition grayscale :: "Image \<Rightarrow> Image" where
  "grayscale img = img"

text \<open>\<open>Compute\<close> (lines 25 to 30). The helper \<open>resize\<close> is not among the sources and
  the spec leaves its resampling open, so it is the parameter \<open>rsz\<close>. The grayscale
  step is the parameter \<open>gs\<close>; it is instantiated with \<open>grayscale\<close> where a property
  depends on what the helper does.\<close>

definition Compute ::
  "(Image \<Rightarrow> go_int \<Rightarrow> go_int \<Rightarrow> Image) \<Rightarrow> (Image \<Rightarrow> Image) \<Rightarrow> Image \<Rightarrow> uint64" where
  "Compute rsz gs img =
     (let img1 = rsz img 8 8;
          img2 = gs img1;
          mean = computeMean img2
      in computeHash img2 mean)"

section \<open>The pixels in the order the loops visit them\<close>

text \<open>The definitions of this section are not functions of the program: they are the
  notions the properties are stated with. First, names for the four bounds.\<close>

abbreviation minX :: "Image \<Rightarrow> go_int" where "minX img \<equiv> X (Min_pt (Bounds img))"
abbreviation maxX :: "Image \<Rightarrow> go_int" where "maxX img \<equiv> X (Max_pt (Bounds img))"
abbreviation minY :: "Image \<Rightarrow> go_int" where "minY img \<equiv> Y (Min_pt (Bounds img))"
abbreviation maxY :: "Image \<Rightarrow> go_int" where "maxY img \<equiv> Y (Max_pt (Bounds img))"

text \<open>The coordinates a loop \<open>for x = lo; x < hi; x++\<close> runs through, in order.\<close>

definition span :: "go_int \<Rightarrow> go_int \<Rightarrow> go_int list" where
  "span lo hi = map (\<lambda>k. lo + of_nat k) [0..<nat (sint hi - sint lo)]"

text \<open>The red values of row \<open>y\<close> from left to right, and of the whole rectangle in
  row-major order.\<close>

definition row :: "Image \<Rightarrow> go_int \<Rightarrow> uint32 list" where
  "row img y = map (\<lambda>x. RGBA_r (At img x y)) (span (minX img) (maxX img))"

definition pixels :: "Image \<Rightarrow> uint32 list" where
  "pixels img = concat (map (row img) (span (minY img) (maxY img)))"

text \<open>The body of the inner loop of \<open>computeHash\<close> (lines 68 to 74) as a function of
  the red value \<open>r\<close> and the state \<open>(value, bit)\<close>.\<close>

definition hashPixel :: "uint32 \<Rightarrow> uint32 \<Rightarrow> uint64 \<times> uint64 \<Rightarrow> uint64 \<times> uint64" where
  "hashPixel mean r st =
     (if mean < r then fst st OR push_bit (unat (snd st)) 1 else fst st, snd st + 1)"

text \<open>The numbers of columns, of rows and of pixels, as natural numbers: the numbers
  of iterations of the inner loop, of the outer loop and of both. They are 0 when the
  maximum is not above the minimum.\<close>

definition width :: "Image \<Rightarrow> nat" where
  "width img = nat (sint (maxX img) - sint (minX img))"

definition height :: "Image \<Rightarrow> nat" where
  "height img = nat (sint (maxY img) - sint (minY img))"

definition pixel_count :: "Image \<Rightarrow> nat" where
  "pixel_count img = width img * height img"

text \<open>A coordinate of the rectangle (\<open>Point.In\<close>), and its position in row-major
  order, counted from 0.\<close>

definition inBounds :: "Image \<Rightarrow> go_int \<Rightarrow> go_int \<Rightarrow> bool" where
  "inBounds img x y \<longleftrightarrow>
     minX img \<le>s x \<and> x <s maxX img \<and> minY img \<le>s y \<and> y <s maxY img"

definition pixel_index :: "Image \<Rightarrow> go_int \<Rightarrow> go_int \<Rightarrow> nat" where
  "pixel_index img x y =
     nat (sint y - sint (minY img)) * width img + nat (sint x - sint (minX img))"

text \<open>A rectangle with at least one pixel (not \<open>Rectangle.Empty\<close>), and an image of
  8 columns and 8 rows.\<close>

definition nonempty :: "Image \<Rightarrow> bool" where
  "nonempty img \<longleftrightarrow> minX img <s maxX img \<and> minY img <s maxY img"

definition is8x8 :: "Image \<Rightarrow> bool" where
  "is8x8 img \<longleftrightarrow> width img = 8 \<and> height img = 8"

text \<open>The sum of the red values of all pixels as a natural number, without
  wrap-around.\<close>

definition channel_sum :: "Image \<Rightarrow> nat" where
  "channel_sum img = sum_list (map unat (pixels img))"

text \<open>An image whose pixels all have the red value \<open>v\<close>, and an image whose red values
  lie in the 16-bit range that \<open>color.Color\<close> documents for \<open>RGBA()\<close> and the data model
  of the spec gives for the channel intensities (0 to 65535).\<close>

definition uniform :: "Image \<Rightarrow> uint32 \<Rightarrow> bool" where
  "uniform img v \<longleftrightarrow> (\<forall>x y. inBounds img x y \<longrightarrow> RGBA_r (At img x y) = v)"

definition depth16 :: "Image \<Rightarrow> bool" where
  "depth16 img \<longleftrightarrow> (\<forall>x y. inBounds img x y \<longrightarrow> RGBA_r (At img x y) \<le> 0xFFFF)"

text \<open>Two images with the same bounds and the same red value at every coordinate of
  the rectangle; green, blue and alpha are free.\<close>

definition same_red :: "Image \<Rightarrow> Image \<Rightarrow> bool" where
  "same_red p q \<longleftrightarrow>
     Bounds p = Bounds q \<and>
     (\<forall>x y. inBounds p x y \<longrightarrow> RGBA_r (At p x y) = RGBA_r (At q x y))"

text \<open>Two images that are pixel for pixel equal: the same bounds and the same colour
  at every coordinate of the rectangle. A grayscale step that reads its input through
  the bounds and the pixels of the rectangle gives, on two such images, results with
  the same bounds and red values.\<close>

definition same_grid :: "Image \<Rightarrow> Image \<Rightarrow> bool" where
  "same_grid p q \<longleftrightarrow>
     Bounds p = Bounds q \<and> (\<forall>x y. inBounds p x y \<longrightarrow> At p x y = At q x y)"

definition grid_step :: "(Image \<Rightarrow> Image) \<Rightarrow> bool" where
  "grid_step gs \<longleftrightarrow> (\<forall>p q. same_grid p q \<longrightarrow> same_red (gs p) (gs q))"

section \<open>Example images\<close>

text \<open>An opaque gray colour, a rectangle from its four bounds, and a nearest-neighbour
  resize as one possible resize collaborator.\<close>

definition gray :: "uint32 \<Rightarrow> Color" where
  "gray v = (v, v, v, 0xFFFF)"

definition rect :: "go_int \<Rightarrow> go_int \<Rightarrow> go_int \<Rightarrow> go_int \<Rightarrow> Rectangle" where
  "rect x0 y0 x1 y1 = \<lparr>Min_pt = \<lparr>X = x0, Y = y0\<rparr>, Max_pt = \<lparr>X = x1, Y = y1\<rparr>\<rparr>"

definition nearest :: "Image \<Rightarrow> go_int \<Rightarrow> go_int \<Rightarrow> Image" where
  "nearest img w h =
     \<lparr>Bounds = rect 0 0 w h,
      At = (\<lambda>x y. At img (minX img + x * (maxX img - minX img) div w)
                          (minY img + y * (maxY img - minY img) div h))\<rparr>"

text \<open>A rectangle of width 0.\<close>

definition zero_width_image :: Image where
  "zero_width_image = \<lparr>Bounds = rect 3 5 3 9, At = (\<lambda>x y. gray 7)\<rparr>"

text \<open>The 8 by 8 checkerboard of intensities 0 and 65535, in its two phases: with
  \<open>white_first\<close> the cell at (0, 0) has intensity 65535.\<close>

definition checkerboard :: "bool \<Rightarrow> Image" where
  "checkerboard white_first =
     \<lparr>Bounds = rect 0 0 8 8,
      At = (\<lambda>x y. gray (if even (x + y) = white_first then 0xFFFF else 0))\<rparr>"

text \<open>Two 16 by 16 images with the same red channel and different green and blue
  channels.\<close>

definition red_stripes :: Image where
  "red_stripes =
     \<lparr>Bounds = rect 0 0 16 16,
      At = (\<lambda>x y. (if y <s 8 then 1000 else 50000, 0, 0, 0xFFFF))\<rparr>"

definition tinted_stripes :: Image where
  "tinted_stripes =
     \<lparr>Bounds = rect 0 0 16 16,
      At = (\<lambda>x y. (if y <s 8 then 1000 else 50000, 0xFFFF, 12345, 0xFFFF))\<rparr>"

text \<open>The checkerboard with \<open>white_first\<close> enlarged to 16 columns and 24 rows: every
  cell is 2 pixels wide and 3 pixels high.\<close>

definition wide_checkerboard :: Image where
  "wide_checkerboard =
     \<lparr>Bounds = rect 0 0 16 24,
      At = (\<lambda>x y. gray (if even (x div 2 + y div 3) then 0xFFFF else 0))\<rparr>"

text \<open>A grayscale step that does convert, as one possible grayscale collaborator: the
  16-bit luminance of \<open>color.Gray16Model\<close> in all three colour channels.\<close>

definition luminance :: "Image \<Rightarrow> Image" where
  "luminance img =
     \<lparr>Bounds = Bounds img,
      At = (\<lambda>x y. case At img x y of
              (r, g, b, a) \<Rightarrow> gray (drop_bit 16 (19595 * r + 38470 * g + 7471 * b + 32768)))\<rparr>"

text \<open>A uniform 8 by 8 image, and two all-white images of 256 by 257 and 300 by 300
  pixels.\<close>

definition gray_8x8 :: Image where
  "gray_8x8 = \<lparr>Bounds = rect (-4) 10 4 18, At = (\<lambda>x y. gray 1234)\<rparr>"

definition white_256x257 :: Image where
  "white_256x257 = \<lparr>Bounds = rect 0 0 256 257, At = (\<lambda>x y. gray 0xFFFF)\<rparr>"

definition white_300x300 :: Image where
  "white_300x300 = \<lparr>Bounds = rect 0 0 300 300, At = (\<lambda>x y. gray 0xFFFF)\<rparr>"

text \<open>Two images of 8 columns and 9 rows that differ in the last row only, and two
  images of \<open>2 ^ 62\<close> columns and 5 rows that differ only at the coordinate (0, 4), whose
  row-major position is \<open>2 ^ 64\<close>.\<close>

definition tall_plain :: Image where
  "tall_plain = \<lparr>Bounds = rect 0 0 8 9, At = (\<lambda>x y. gray 100)\<rparr>"

definition tall_marked :: Image where
  "tall_marked =
     \<lparr>Bounds = rect 0 0 8 9, At = (\<lambda>x y. gray (if y = 8 then 60000 else 100))\<rparr>"

definition huge_black :: Image where
  "huge_black = \<lparr>Bounds = rect 0 0 (2 ^ 62) 5, At = (\<lambda>x y. gray 0)\<rparr>"

definition huge_dotted :: Image where
  "huge_dotted =
     \<lparr>Bounds = rect 0 0 (2 ^ 62) 5,
      At = (\<lambda>x y. gray (if x = 0 \<and> y = 4 then 1 else 0))\<rparr>"

section \<open>The loops as sums and folds over the pixel list\<close>

lemma span_Nil: "\<not> lo <s hi \<Longrightarrow> span lo hi = []"
  by (simp add: span_def word_sless_alt)

lemma span_Cons:
  assumes "lo <s hi"
  shows "span lo hi = lo # span (lo + 1) hi"
proof -
  have lt: "sint lo < sint hi" using assms by (simp add: word_sless_alt)
  have s: "sint (lo + 1) = sint lo + 1" by (rule sint_succ [OF assms])
  have n: "nat (sint hi - sint lo) = Suc (nat (sint hi - sint (lo + 1)))"
    using lt s by simp
  show ?thesis
    unfolding span_def n upt_conv_Cons [OF zero_less_Suc]
    by (simp add: map_Suc_upt [symmetric] del: upt_Suc)
qed

lemma length_span: "length (span lo hi) = nat (sint hi - sint lo)"
  by (simp add: span_def)

lemma sint_add_of_nat:
  fixes lo hi :: go_int
  assumes "int k < sint hi - sint lo"
  shows "sint (lo + of_nat k) = sint lo + int k"
proof -
  have "lo + of_nat k = word_of_int (sint lo + int k)" by simp
  moreover have "sint hi < 2 ^ 63" using sint_lt [of hi] by simp
  moreover have "- (2 ^ 63) \<le> sint lo" using sint_ge [of lo] by simp
  ultimately show ?thesis using assms
    by (simp only: sint_sbintrunc' ) (simp add: signed_take_bit_int_eq_self)
qed

lemma nth_span: "k < nat (sint hi - sint lo) \<Longrightarrow> span lo hi ! k = lo + of_nat k"
  by (simp add: span_def)

lemma set_span: "set (span lo hi) = {x. lo \<le>s x \<and> x <s hi}"
proof (intro set_eqI iffI)
  fix x assume "x \<in> set (span lo hi)"
  then obtain k where k: "k < nat (sint hi - sint lo)" and x: "x = lo + of_nat k"
    by (auto simp: span_def)
  have "sint x = sint lo + int k" unfolding x by (rule sint_add_of_nat [of k hi]) (use k in simp)
  then show "x \<in> {x. lo \<le>s x \<and> x <s hi}"
    using k by (simp add: word_sless_alt word_sle_eq)
next
  fix x assume "x \<in> {x. lo \<le>s x \<and> x <s hi}"
  then have r: "sint lo \<le> sint x" "sint x < sint hi"
    by (simp_all add: word_sless_alt word_sle_eq)
  define k where "k = nat (sint x - sint lo)"
  have "x = word_of_int (sint lo + int k)" using r by (simp add: k_def)
  then have "x = lo + of_nat k" by simp
  moreover have "k < nat (sint hi - sint lo)" using r by (simp add: k_def)
  ultimately show "x \<in> set (span lo hi)" by (auto simp: span_def)
qed

lemma meanCols_sum:
  "meanCols img y x m = m + sum_list (map (\<lambda>x. RGBA_r (At img x y)) (span x (maxX img)))"
proof (induction img y x m rule: meanCols.induct)
  case (1 img y x m)
  show ?case
  proof (cases "x <s maxX img")
    case True
    then show ?thesis
      using "1.IH" by (subst meanCols.simps) (simp add: span_Cons add.assoc)
  next
    case False
    then show ?thesis by (subst meanCols.simps) (simp add: span_Nil)
  qed
qed

lemma meanCols_row: "meanCols img y (minX img) m = m + sum_list (row img y)"
  by (simp add: meanCols_sum row_def)

lemma meanRows_sum:
  "meanRows img y m = m + sum_list (concat (map (row img) (span y (maxY img))))"
proof (induction img y m rule: meanRows.induct)
  case (1 img y m)
  show ?case
  proof (cases "y <s maxY img")
    case True
    then show ?thesis
      using "1.IH" by (subst meanRows.simps) (simp add: span_Cons meanCols_row add.assoc)
  next
    case False
    then show ?thesis by (subst meanRows.simps) (simp add: span_Nil)
  qed
qed

lemma hashPixel_pair:
  "hashPixel mean r (val, bitpos) =
     (if mean < r then val OR push_bit (unat bitpos) 1 else val, bitpos + 1)"
  by (simp add: hashPixel_def)

lemma hashCols_fold:
  "hashCols img mean y x st =
     fold (hashPixel mean) (map (\<lambda>x. RGBA_r (At img x y)) (span x (maxX img))) st"
proof (induction img mean y x st rule: hashCols.induct)
  case (1 img mean y x val bitpos)
  show ?case
  proof (cases "x <s maxX img")
    case True
    then show ?thesis
      using "1.IH" by (subst hashCols.simps) (simp add: span_Cons hashPixel_pair)
  next
    case False
    then show ?thesis by (subst hashCols.simps) (simp add: span_Nil)
  qed
qed

lemma hashCols_row:
  "hashCols img mean y (minX img) st = fold (hashPixel mean) (row img y) st"
  by (simp add: hashCols_fold row_def)

lemma hashRows_fold:
  "hashRows img mean y st =
     fold (hashPixel mean) (concat (map (row img) (span y (maxY img)))) st"
proof (induction img mean y st rule: hashRows.induct)
  case (1 img mean y st)
  show ?case
  proof (cases "y <s maxY img")
    case True
    then show ?thesis
      using "1.IH" by (subst hashRows.simps) (simp add: span_Cons hashCols_row)
  next
    case False
    then show ?thesis by (subst hashRows.simps) (simp add: span_Nil)
  qed
qed

lemma computeHash_pixels:
  "computeHash img mean = fst (fold (hashPixel mean) (pixels img) (0, 0))"
  by (simp add: computeHash_def hashRows_fold pixels_def)

lemma meanRows_pixels: "meanRows img (minY img) 0 = sum_list (pixels img)"
  by (simp add: meanRows_sum pixels_def)

section \<open>Which pixels set which bit\<close>

lemma hashPixel_snd: "snd (fold (hashPixel mean) rs st) = snd st + of_nat (length rs)"
  by (induction rs arbitrary: st) (simp_all add: hashPixel_def add.assoc)

lemma bit_one_shift:
  fixes b :: uint64
  shows "bit (push_bit (unat b) (1 :: uint64)) i \<longleftrightarrow> i < 64 \<and> unat b = i"
  by (auto simp: bit_simps)

lemma bit_two_power:
  fixes b :: uint64
  shows "bit (2 ^ unat b :: uint64) i \<longleftrightarrow> i < 64 \<and> unat b = i"
  by (auto simp: bit_simps)

lemma unat_succ_add:
  fixes b :: uint64
  shows "(unat (b + 1) + k) mod 2 ^ 64 = (unat b + Suc k) mod 2 ^ 64"
proof -
  have "unat (b + 1) = (unat b + 1) mod 2 ^ 64" by (simp add: unat_word_ariths)
  then show ?thesis by (simp add: mod_add_left_eq)
qed

lemma fold_hashPixel_bit:
  "bit (fst (fold (hashPixel mean) rs st)) i \<longleftrightarrow>
     bit (fst st) i \<or>
     (i < 64 \<and> (\<exists>k < length rs. (unat (snd st) + k) mod 2 ^ 64 = i \<and> mean < rs ! k))"
proof (induction rs arbitrary: st)
  case Nil
  then show ?case by simp
next
  case (Cons r rs)
  obtain v b where st: "st = (v, b)" by (cases st)
  have ub: "unat b < 2 ^ 64" using unsigned_less [of b, where 'a = nat] by simp
  have ex: "(\<exists>k < length (r # rs). (unat b + k) mod 2 ^ 64 = i \<and> mean < (r # rs) ! k) \<longleftrightarrow>
      (unat b = i \<and> mean < r) \<or>
      (\<exists>k < length rs. (unat (b + 1) + k) mod 2 ^ 64 = i \<and> mean < rs ! k)"
    (is "?L \<longleftrightarrow> ?A \<or> ?B")
  proof
    assume ?L
    then obtain k where k: "k < length (r # rs)" "(unat b + k) mod 2 ^ 64 = i" "mean < (r # rs) ! k"
      by blast
    show "?A \<or> ?B"
    proof (cases k)
      case 0
      then show ?thesis using k ub by simp
    next
      case (Suc j)
      then have "j < length rs" "(unat (b + 1) + j) mod 2 ^ 64 = i" "mean < rs ! j"
        using k unat_succ_add [of b j] by simp_all
      then show ?thesis by blast
    qed
  next
    assume "?A \<or> ?B"
    then show ?L
    proof
      assume ?A
      then have "0 < length (r # rs) \<and> (unat b + 0) mod 2 ^ 64 = i \<and> mean < (r # rs) ! 0"
        using ub by simp
      then show ?L by blast
    next
      assume ?B
      then obtain j where "j < length rs" "(unat (b + 1) + j) mod 2 ^ 64 = i" "mean < rs ! j"
        by blast
      then have "Suc j < length (r # rs) \<and> (unat b + Suc j) mod 2 ^ 64 = i \<and> mean < (r # rs) ! Suc j"
        using unat_succ_add [of b j] by simp
      then show ?L by blast
    qed
  qed
  show ?case
    unfolding st fold_simps hashPixel_pair Cons.IH fst_conv snd_conv ex
    by (auto simp: bit_or_iff bit_one_shift bit_two_power)
qed

lemma computeHash_bit_list:
  "bit (computeHash img mean) i \<longleftrightarrow>
     i < 64 \<and> (\<exists>k < length (pixels img). k mod 2 ^ 64 = i \<and> mean < pixels img ! k)"
  by (simp add: computeHash_pixels fold_hashPixel_bit)

section \<open>Row-major positions and coordinates\<close>

lemma length_row: "length (row img y) = width img"
  by (simp add: row_def width_def length_span)

lemma length_pixels: "length (pixels img) = pixel_count img"
  by (simp add: pixels_def length_concat comp_def length_row sum_list_triv
      pixel_count_def height_def length_span)

lemma nth_concat_rows:
  assumes "\<forall>y \<in> set ys. length (f y) = w" and "k < w * length ys"
  shows "concat (map f ys) ! k = f (ys ! (k div w)) ! (k mod w)"
  using assms
proof (induction ys arbitrary: k)
  case Nil
  then show ?case by simp
next
  case (Cons y ys)
  have w: "0 < w" using Cons.prems(2) by (cases w) simp_all
  show ?case
  proof (cases "k < w")
    case True
    then show ?thesis using Cons.prems by (simp add: nth_append)
  next
    case False
    then have kw: "w \<le> k" by simp
    have d: "k div w = Suc ((k - w) div w)" and m: "k mod w = (k - w) mod w"
      using kw w by (simp_all add: le_div_geq le_mod_geq)
    have "k - w < w * length ys" using Cons.prems(2) kw by simp
    then have "concat (map f ys) ! (k - w) = f (ys ! ((k - w) div w)) ! ((k - w) mod w)"
      using Cons.IH Cons.prems(1) by simp
    then show ?thesis using False Cons.prems(1) by (simp add: nth_append d m)
  qed
qed

lemma pixels_nth:
  assumes "k < pixel_count img"
  shows "pixels img ! k =
    RGBA_r (At img (minX img + of_nat (k mod width img)) (minY img + of_nat (k div width img)))"
proof -
  have w: "0 < width img" using assms by (cases "width img") (simp_all add: pixel_count_def)
  have kd: "k div width img < height img"
    using assms by (simp add: pixel_count_def less_mult_imp_div_less mult.commute)
  have km: "k mod width img < width img" using w by simp
  have "pixels img ! k = row img (span (minY img) (maxY img) ! (k div width img)) ! (k mod width img)"
    unfolding pixels_def
    by (rule nth_concat_rows) (use assms in \<open>simp_all add: length_row length_span pixel_count_def height_def\<close>)
  also have "span (minY img) (maxY img) ! (k div width img) = minY img + of_nat (k div width img)"
    using kd by (simp add: nth_span height_def)
  also have "row img (minY img + of_nat (k div width img)) ! (k mod width img) =
      RGBA_r (At img (minX img + of_nat (k mod width img)) (minY img + of_nat (k div width img)))"
    using km by (simp add: row_def length_span nth_span width_def)
  finally show ?thesis .
qed

lemma inBounds_iff:
  "inBounds img x y \<longleftrightarrow> x \<in> set (span (minX img) (maxX img)) \<and> y \<in> set (span (minY img) (maxY img))"
  by (auto simp: inBounds_def set_span)

lemma inBounds_index:
  assumes "inBounds img x y"
  shows "pixel_index img x y < pixel_count img"
    and "minX img + of_nat (pixel_index img x y mod width img) = x"
    and "minY img + of_nat (pixel_index img x y div width img) = y"
proof -
  have r: "sint (minX img) \<le> sint x" "sint x < sint (maxX img)"
          "sint (minY img) \<le> sint y" "sint y < sint (maxY img)"
    using assms by (simp_all add: inBounds_def word_sless_alt word_sle_eq)
  define i where "i = nat (sint x - sint (minX img))"
  define j where "j = nat (sint y - sint (minY img))"
  have i: "i < width img" and j: "j < height img"
    using r by (simp_all add: i_def j_def width_def height_def)
  have idx: "pixel_index img x y = j * width img + i"
    by (simp add: pixel_index_def i_def j_def)
  have "j * width img + i < j * width img + width img" using i by simp
  also have "\<dots> = Suc j * width img" by simp
  also have "\<dots> \<le> height img * width img" using j by (intro mult_le_mono1) simp
  finally show "pixel_index img x y < pixel_count img"
    by (simp add: idx pixel_count_def mult.commute)
  have "x = word_of_int (sint (minX img) + int i)" using r by (simp add: i_def)
  then have x: "x = minX img + of_nat i" by simp
  have "y = word_of_int (sint (minY img) + int j)" using r by (simp add: j_def)
  then have y: "y = minY img + of_nat j" by simp
  show "minX img + of_nat (pixel_index img x y mod width img) = x"
    using i by (simp add: idx x [symmetric])
  show "minY img + of_nat (pixel_index img x y div width img) = y"
    using i by (simp add: idx y [symmetric])
qed

lemma index_inBounds:
  assumes "k < pixel_count img"
  shows "inBounds img (minX img + of_nat (k mod width img)) (minY img + of_nat (k div width img))"
    and "pixel_index img (minX img + of_nat (k mod width img)) (minY img + of_nat (k div width img)) = k"
proof -
  have w: "0 < width img" using assms by (cases "width img") (simp_all add: pixel_count_def)
  have kd: "k div width img < height img"
    using assms by (simp add: pixel_count_def less_mult_imp_div_less mult.commute)
  have km: "k mod width img < width img" using w by simp
  have km': "int (k mod width img) < sint (maxX img) - sint (minX img)"
    using km by (simp add: width_def)
  have kd': "int (k div width img) < sint (maxY img) - sint (minY img)"
    using kd by (simp add: height_def)
  have sx: "sint (minX img + of_nat (k mod width img)) = sint (minX img) + int (k mod width img)"
    by (rule sint_add_of_nat [OF km'])
  have sy: "sint (minY img + of_nat (k div width img)) = sint (minY img) + int (k div width img)"
    by (rule sint_add_of_nat [OF kd'])
  show "inBounds img (minX img + of_nat (k mod width img)) (minY img + of_nat (k div width img))"
    using km' kd' by (simp add: inBounds_def word_sless_alt word_sle_eq sx sy)
  show "pixel_index img (minX img + of_nat (k mod width img)) (minY img + of_nat (k div width img)) = k"
    by (simp add: pixel_index_def sx sy)
qed

lemma pixels_at:
  assumes "inBounds img x y"
  shows "pixels img ! pixel_index img x y = RGBA_r (At img x y)"
  using pixels_nth [OF inBounds_index(1) [OF assms]] inBounds_index(2,3) [OF assms] by simp

lemma computeHash_bit:
  "bit (computeHash img mean) i \<longleftrightarrow>
     i < 64 \<and> (\<exists>x y. inBounds img x y \<and> pixel_index img x y mod 2 ^ 64 = i \<and>
                      mean < RGBA_r (At img x y))"
  (is "?L \<longleftrightarrow> ?R")
proof
  assume ?L
  then obtain k where i: "i < 64" and k: "k < pixel_count img" "k mod 2 ^ 64 = i" "mean < pixels img ! k"
    by (auto simp: computeHash_bit_list length_pixels)
  show ?R
    using i k index_inBounds [OF k(1)] pixels_nth [OF k(1)] by metis
next
  assume ?R
  then obtain x y where i: "i < 64" and xy: "inBounds img x y" "pixel_index img x y mod 2 ^ 64 = i"
      "mean < RGBA_r (At img x y)"
    by blast
  show ?L
    unfolding computeHash_bit_list length_pixels
    using i xy inBounds_index(1) [OF xy(1)] pixels_at [OF xy(1)] by metis
qed

section \<open>The mean as a quotient\<close>

lemma diff_of_nat:
  fixes lo hi :: go_int
  assumes "lo \<le>s hi"
  shows "hi - lo = of_nat (nat (sint hi - sint lo))"
proof -
  have "sint lo \<le> sint hi" using assms by (simp add: word_sle_eq)
  then have "(of_nat (nat (sint hi - sint lo)) :: go_int) = word_of_int (sint hi - sint lo)"
    by (simp add: of_nat_nat)
  then show ?thesis by simp
qed

lemma count_of_nat:
  assumes "minX img \<le>s maxX img" and "minY img \<le>s maxY img"
  shows "(ucast ((maxX img - minX img) * (maxY img - minY img)) :: uint32) = of_nat (pixel_count img)"
proof -
  have "(maxX img - minX img) * (maxY img - minY img) = (of_nat (pixel_count img) :: go_int)"
    by (simp add: diff_of_nat [OF assms(1)] diff_of_nat [OF assms(2)] pixel_count_def width_def height_def)
  then show ?thesis
    by (simp add: unsigned_of_nat word_of_nat_eq_iff take_bit_take_bit min_def)
qed

lemma unat_count:
  assumes "minX img \<le>s maxX img" and "minY img \<le>s maxY img"
  shows "unat (ucast ((maxX img - minX img) * (maxY img - minY img)) :: uint32) = pixel_count img mod 2 ^ 32"
  by (simp add: count_of_nat [OF assms] unat_of_nat)

lemma unat_sum_list:
  fixes rs :: "uint32 list"
  shows "unat (sum_list rs) = sum_list (map unat rs) mod 2 ^ 32"
proof (induction rs)
  case Nil
  then show ?case by simp
next
  case (Cons r rs)
  have "unat (r + sum_list rs) = (unat r + unat (sum_list rs)) mod 2 ^ 32"
    by (simp add: unat_word_ariths)
  also have "\<dots> = (unat r + sum_list (map unat rs) mod 2 ^ 32) mod 2 ^ 32"
    by (simp only: Cons.IH)
  also have "\<dots> = (unat r + sum_list (map unat rs)) mod 2 ^ 32"
    by (rule mod_add_right_eq)
  finally show ?case by simp
qed

lemma computeMean_pixels:
  "computeMean img =
     (let c = (ucast ((maxX img - minX img) * (maxY img - minY img)) :: uint32)
      in if c = 0 then 0 else sum_list (pixels img) div c)"
  by (simp add: computeMean_def Let_def meanRows_pixels)

lemma nonempty_le: "nonempty img \<Longrightarrow> minX img \<le>s maxX img \<and> minY img \<le>s maxY img"
  by (simp add: nonempty_def word_sless_alt word_sle_eq)

lemma nonempty_count: "nonempty img \<Longrightarrow> 0 < pixel_count img"
  by (simp add: nonempty_def word_sless_alt pixel_count_def width_def height_def)

lemma unat_computeMean:
  assumes "nonempty img"
  shows "unat (computeMean img) =
     (if pixel_count img mod 2 ^ 32 = 0 then 0
      else (channel_sum img mod 2 ^ 32) div (pixel_count img mod 2 ^ 32))"
proof -
  let ?c = "ucast ((maxX img - minX img) * (maxY img - minY img)) :: uint32"
  have le: "minX img \<le>s maxX img" "minY img \<le>s maxY img"
    using nonempty_le [OF assms] by simp_all
  have c: "unat ?c = pixel_count img mod 2 ^ 32" by (rule unat_count [OF le])
  show ?thesis
  proof (cases "?c = 0")
    case True
    then have "pixel_count img mod 2 ^ 32 = 0" using c by simp
    then show ?thesis using True by (simp add: computeMean_pixels)
  next
    case False
    then have "pixel_count img mod 2 ^ 32 \<noteq> 0" using c by (simp add: unat_eq_0 [symmetric] del: unat_eq_0)
    moreover have "unat (sum_list (pixels img) div ?c) = (channel_sum img mod 2 ^ 32) div (pixel_count img mod 2 ^ 32)"
      by (simp only: unat_div c unat_sum_list channel_sum_def)
    ultimately show ?thesis using False by (simp add: computeMean_pixels)
  qed
qed

lemma computeMean_exact:
  assumes "nonempty img" and "pixel_count img < 2 ^ 32" and "channel_sum img < 2 ^ 32"
  shows "unat (computeMean img) = channel_sum img div pixel_count img"
  using unat_computeMean [OF assms(1)] nonempty_count [OF assms(1)] assms(2,3) by simp

section \<open>Empty rectangles and images with equal red channels\<close>

lemma pixels_empty:
  assumes "maxX img = minX img \<or> maxY img = minY img"
  shows "pixels img = []"
  using assms
proof
  assume "maxX img = minX img"
  then have "row img y = []" for y by (simp add: row_def span_def)
  then show ?thesis by (simp add: pixels_def)
next
  assume "maxY img = minY img"
  then show ?thesis by (simp add: pixels_def span_def)
qed

lemma same_red_pixels:
  assumes "same_red p q"
  shows "pixels p = pixels q"
proof (rule nth_equalityI)
  have b: "Bounds p = Bounds q" using assms by (simp add: same_red_def)
  then have c: "pixel_count p = pixel_count q" and w: "width p = width q"
    by (simp_all add: pixel_count_def width_def height_def)
  show "length (pixels p) = length (pixels q)" by (simp add: length_pixels c)
  fix k assume "k < length (pixels p)"
  then have k: "k < pixel_count p" by (simp add: length_pixels)
  have "RGBA_r (At p (minX p + of_nat (k mod width p)) (minY p + of_nat (k div width p))) =
        RGBA_r (At q (minX p + of_nat (k mod width p)) (minY p + of_nat (k div width p)))"
    using assms index_inBounds(1) [OF k] by (simp add: same_red_def)
  then show "pixels p ! k = pixels q ! k"
    using pixels_nth [OF k] pixels_nth [of k q] k c w b by simp
qed

lemma same_grid_red: "same_grid p q \<Longrightarrow> same_red p q"
  by (simp add: same_grid_def same_red_def)

lemma same_red_mean_hash:
  assumes "same_red p q"
  shows "computeMean p = computeMean q" and "computeHash p mean = computeHash q mean"
proof -
  have p: "pixels p = pixels q" by (rule same_red_pixels [OF assms])
  have b: "Bounds p = Bounds q" using assms by (simp add: same_red_def)
  show "computeMean p = computeMean q" by (simp add: computeMean_pixels Let_def p b)
  show "computeHash p mean = computeHash q mean" by (simp add: computeHash_pixels p)
qed

section \<open>Small images, bounds on the sum, uniform images\<close>

lemma hash_bit_small:
  assumes "pixel_count img \<le> 2 ^ 64"
  shows "bit (computeHash img mean) i \<longleftrightarrow>
           i < 64 \<and> i < pixel_count img \<and> mean < pixels img ! i"
proof -
  have "k mod 2 ^ 64 = k" if "k < pixel_count img" for k
    using that assms by simp
  then show ?thesis
    unfolding computeHash_bit_list length_pixels by metis
qed

lemma hash_of_prefix:
  assumes "pixel_count img \<le> 2 ^ 64"
  shows "bit (computeHash img mean) i \<longleftrightarrow>
           i < length (take 64 (pixels img)) \<and> mean < take 64 (pixels img) ! i"
  using hash_bit_small [OF assms, of mean i] by (auto simp: length_pixels)

lemma hashRows_counter:
  "snd (hashRows img mean (minY img) (0, 0)) = of_nat (pixel_count img)"
  by (simp add: hashRows_fold hashPixel_snd pixels_def [symmetric] length_pixels)

lemma is8x8_facts:
  assumes "is8x8 img"
  shows "width img = 8" "height img = 8" "pixel_count img = 64" "nonempty img"
    "maxX img = minX img + 8" "maxY img = minY img + 8"
proof -
  show w: "width img = 8" and h: "height img = 8" using assms by (simp_all add: is8x8_def)
  show "pixel_count img = 64" by (simp add: pixel_count_def w h)
  have x: "sint (maxX img) - sint (minX img) = 8" using w by (simp add: width_def)
  have y: "sint (maxY img) - sint (minY img) = 8" using h by (simp add: height_def)
  show "nonempty img" using x y by (simp add: nonempty_def word_sless_alt)
  have "minX img \<le>s maxX img" using x by (simp add: word_sle_eq)
  from diff_of_nat [OF this] have "maxX img - minX img = 8" by (simp add: x)
  then show "maxX img = minX img + 8" by (simp add: algebra_simps)
  have "minY img \<le>s maxY img" using y by (simp add: word_sle_eq)
  from diff_of_nat [OF this] have "maxY img - minY img = 8" by (simp add: y)
  then show "maxY img = minY img + 8" by (simp add: algebra_simps)
qed

lemma hash_bit_8x8:
  assumes "is8x8 img" and "i < 64"
  shows "bit (computeHash img mean) i \<longleftrightarrow>
     mean < RGBA_r (At img (minX img + of_nat (i mod 8)) (minY img + of_nat (i div 8)))"
proof -
  have c: "pixel_count img = 64" and w: "width img = 8" using is8x8_facts [OF assms(1)] by simp_all
  have "bit (computeHash img mean) i \<longleftrightarrow> mean < pixels img ! i"
    using hash_bit_small [of img mean i] assms(2) c by simp
  also have "pixels img ! i =
      RGBA_r (At img (minX img + of_nat (i mod 8)) (minY img + of_nat (i div 8)))"
    using pixels_nth [of i img] assms(2) c w by simp
  finally show ?thesis .
qed

lemma sum_list_upper:
  fixes f :: "'a \<Rightarrow> nat"
  assumes "\<forall>x \<in> set xs. f x \<le> c"
  shows "sum_list (map f xs) \<le> length xs * c"
  using assms by (induction xs) auto

lemma sum_list_lower:
  fixes f :: "'a \<Rightarrow> nat"
  assumes "\<forall>x \<in> set xs. c \<le> f x"
  shows "length xs * c \<le> sum_list (map f xs)"
  using assms by (induction xs) auto

lemma set_pixels:
  assumes "r \<in> set (pixels img)"
  shows "\<exists>x y. inBounds img x y \<and> r = RGBA_r (At img x y)"
proof -
  obtain k where k: "k < pixel_count img" "r = pixels img ! k"
    using assms by (auto simp: in_set_conv_nth length_pixels)
  show ?thesis using k index_inBounds(1) [OF k(1)] pixels_nth [OF k(1)] by blast
qed

lemma depth16_sum:
  assumes "depth16 img"
  shows "channel_sum img \<le> pixel_count img * 65535"
proof -
  have "\<forall>r \<in> set (pixels img). unat r \<le> 65535"
  proof
    fix r assume "r \<in> set (pixels img)"
    then obtain x y where "inBounds img x y" "r = RGBA_r (At img x y)"
      using set_pixels by blast
    then have "r \<le> 0xFFFF" using assms by (simp add: depth16_def)
    then show "unat r \<le> 65535" by (simp add: word_le_nat_alt)
  qed
  from sum_list_upper [OF this] show ?thesis
    by (simp add: channel_sum_def length_pixels)
qed

lemma mean_8x8:
  assumes "is8x8 img" and "depth16 img"
  shows "channel_sum img \<le> 64 * 65535" and "unat (computeMean img) = channel_sum img div 64"
proof -
  have c: "pixel_count img = 64" and n: "nonempty img" using is8x8_facts [OF assms(1)] by simp_all
  show s: "channel_sum img \<le> 64 * 65535" using depth16_sum [OF assms(2)] c by simp
  show "unat (computeMean img) = channel_sum img div 64"
    using computeMean_exact [OF n] s c by simp
qed

lemma some_bit_clear:
  assumes "is8x8 img" and "depth16 img"
  shows "\<exists>i<64. \<not> bit (computeHash img (computeMean img)) i"
proof (rule ccontr)
  assume "\<not> ?thesis"
  then have all: "\<And>i. i < 64 \<Longrightarrow> bit (computeHash img (computeMean img)) i" by blast
  have c: "pixel_count img = 64" using is8x8_facts [OF assms(1)] by simp
  have "\<forall>r \<in> set (pixels img). unat (computeMean img) + 1 \<le> unat r"
  proof
    fix r assume "r \<in> set (pixels img)"
    then obtain k where k: "k < 64" "r = pixels img ! k"
      by (auto simp: in_set_conv_nth length_pixels c)
    have "computeMean img < pixels img ! k"
      using all [OF k(1)] hash_bit_small [of img "computeMean img" k] c by simp
    then show "unat (computeMean img) + 1 \<le> unat r"
      using k by (simp add: word_less_nat_alt)
  qed
  from sum_list_lower [OF this]
  have "64 * (unat (computeMean img) + 1) \<le> channel_sum img"
    by (simp add: channel_sum_def length_pixels c)
  then have "64 * (channel_sum img div 64 + 1) \<le> channel_sum img"
    using mean_8x8(2) [OF assms] by simp
  then show False by presburger
qed

lemma uniform_pixels:
  assumes "uniform img v"
  shows "pixels img = replicate (pixel_count img) v"
proof (rule replicate_eqI)
  show "length (pixels img) = pixel_count img" by (rule length_pixels)
  fix r assume "r \<in> set (pixels img)"
  then obtain x y where "inBounds img x y" "r = RGBA_r (At img x y)"
    using set_pixels by blast
  then show "r = v" using assms by (simp add: uniform_def)
qed

lemma uniform_sum:
  assumes "uniform img v"
  shows "channel_sum img = pixel_count img * unat v"
  by (simp add: channel_sum_def uniform_pixels [OF assms] sum_list_replicate)

lemma uniform_hash:
  assumes "uniform img v"
  shows "computeHash img v = 0"
proof (rule bit_eqI)
  fix i
  have "\<not> bit (computeHash img v) i"
    using assms computeHash_bit [of img v i] by (auto simp: uniform_def)
  then show "bit (computeHash img v) i \<longleftrightarrow> bit (0 :: uint64) i" by simp
qed

section \<open>Facts about the example images\<close>

lemma upt_0_8: "[0..<8] = [0, 1, 2, 3, 4, 5, 6, Suc 6]"
  by (simp add: numeral_eq_Suc upt_rec)

lemma span_0_8: "span 0 8 = [0, 1, 2, 3, 4, 5, 6, 7]"
  by (simp add: span_def upt_0_8)

lemma upt_0_9: "[0..<9] = [0, 1, 2, 3, 4, 5, 6, 7, Suc 7]"
  by (simp add: numeral_eq_Suc upt_rec)

lemma span_0_9: "span 0 9 = [0, 1, 2, 3, 4, 5, 6, 7, 8]"
  by (simp add: span_def upt_0_9)

lemma checkerboard_facts:
  "is8x8 (checkerboard b)" "minX (checkerboard b) = 0" "minY (checkerboard b) = 0"
  "RGBA_r (At (checkerboard b) x y) = (if even (x + y) = b then 0xFFFF else 0)"
  by (simp_all add: is8x8_def width_def height_def checkerboard_def rect_def gray_def RGBA_r_def)

lemma bounds_checkerboard: "Bounds (checkerboard b) = rect 0 0 8 8"
  by (simp add: checkerboard_def)

lemma pixels_checkerboard:
  "pixels (checkerboard b) =
     (let w = (if b then 0xFFFF else 0); k = (if b then 0 else 0xFFFF)
      in [w, k, w, k, w, k, w, k,  k, w, k, w, k, w, k, w,
          w, k, w, k, w, k, w, k,  k, w, k, w, k, w, k, w,
          w, k, w, k, w, k, w, k,  k, w, k, w, k, w, k, w,
          w, k, w, k, w, k, w, k,  k, w, k, w, k, w, k, w])"
  by (simp add: pixels_def row_def bounds_checkerboard rect_def span_0_8 checkerboard_facts(4))

lemma computeMean_checkerboard: "computeMean (checkerboard b) = 32767"
  by (simp add: computeMean_pixels pixels_checkerboard bounds_checkerboard rect_def)

lemma computeHash_checkerboard:
  "computeHash (checkerboard b) 32767 = (if b then 0xAA55AA55AA55AA55 else 0x55AA55AA55AA55AA)"
  by (simp add: computeHash_pixels pixels_checkerboard hashPixel_pair)

lemma gray_8x8_facts: "nonempty gray_8x8" "uniform gray_8x8 1234" "pixel_count gray_8x8 = 64"
  by (simp_all add: gray_8x8_def rect_def nonempty_def uniform_def pixel_count_def width_def
      height_def word_sless_alt gray_def RGBA_r_def)

lemma white_256x257_facts:
  "nonempty white_256x257" "uniform white_256x257 0xFFFF" "pixel_count white_256x257 = 65792"
  by (simp_all add: white_256x257_def rect_def nonempty_def uniform_def pixel_count_def width_def
      height_def word_sless_alt gray_def RGBA_r_def)

lemma white_256x257_mean: "computeMean white_256x257 = 254"
proof -
  have "unat (computeMean white_256x257) = 254"
    using unat_computeMean [OF white_256x257_facts(1)]
    by (simp add: uniform_sum [OF white_256x257_facts(2)] white_256x257_facts(3))
  then show ?thesis by (simp add: word_unat_eq_iff)
qed

lemma white_300x300_facts:
  "nonempty white_300x300" "uniform white_300x300 0xFFFF" "pixel_count white_300x300 = 90000"
  by (simp_all add: white_300x300_def rect_def nonempty_def uniform_def pixel_count_def width_def
      height_def word_sless_alt gray_def RGBA_r_def)

lemma tall_pixels:
  "pixels tall_plain =
     [100, 100, 100, 100, 100, 100, 100, 100, 100, 100, 100, 100, 100, 100, 100, 100,
      100, 100, 100, 100, 100, 100, 100, 100, 100, 100, 100, 100, 100, 100, 100, 100,
      100, 100, 100, 100, 100, 100, 100, 100, 100, 100, 100, 100, 100, 100, 100, 100,
      100, 100, 100, 100, 100, 100, 100, 100, 100, 100, 100, 100, 100, 100, 100, 100,
      100, 100, 100, 100, 100, 100, 100, 100]"
  "pixels tall_marked =
     [100, 100, 100, 100, 100, 100, 100, 100, 100, 100, 100, 100, 100, 100, 100, 100,
      100, 100, 100, 100, 100, 100, 100, 100, 100, 100, 100, 100, 100, 100, 100, 100,
      100, 100, 100, 100, 100, 100, 100, 100, 100, 100, 100, 100, 100, 100, 100, 100,
      100, 100, 100, 100, 100, 100, 100, 100, 100, 100, 100, 100, 100, 100, 100, 100,
      60000, 60000, 60000, 60000, 60000, 60000, 60000, 60000]"
  by (simp_all add: pixels_def row_def tall_plain_def tall_marked_def rect_def span_0_8 span_0_9
      gray_def RGBA_r_def)

lemma huge_facts:
  "width huge_black = 2 ^ 62" "pixel_count huge_black = 5 * 2 ^ 62"
  "width huge_dotted = 2 ^ 62" "pixel_count huge_dotted = 5 * 2 ^ 62"
  "minX huge_black = 0" "minY huge_black = 0" "minX huge_dotted = 0" "minY huge_dotted = 0"
  by (simp_all add: huge_black_def huge_dotted_def rect_def pixel_count_def width_def height_def)

lemma set_span_0_8: "set (span 0 8) = {0, 1, 2, 3, 4, 5, 6, 7}"
  by (simp add: span_0_8)

lemma nearest_bounds: "Bounds (nearest img w h) = rect 0 0 w h"
  by (simp add: nearest_def)

lemma inBounds_nearest_8:
  "inBounds (nearest img 8 8) x y \<longleftrightarrow>
     x \<in> {0, 1, 2, 3, 4, 5, 6, 7} \<and> y \<in> {0, 1, 2, 3, 4, 5, 6, 7}"
  unfolding inBounds_iff nearest_bounds by (simp add: rect_def set_span_0_8)

lemma nearest_checkerboard_grid:
  "same_grid (nearest (checkerboard True) 8 8) (checkerboard True)"
  unfolding same_grid_def inBounds_nearest_8
  by (auto simp: nearest_def checkerboard_def rect_def)

lemma nearest_wide_grid:
  "same_grid (nearest (checkerboard True) 8 8) (nearest wide_checkerboard 8 8)"
  unfolding same_grid_def inBounds_nearest_8
  by (auto simp: nearest_def checkerboard_def wide_checkerboard_def rect_def)

lemma grid_step_luminance: "grid_step luminance"
  by (auto simp: grid_step_def same_grid_def same_red_def luminance_def inBounds_def)

section \<open>The properties\<close>

text \<open>Whatever the grayscale step \<open>gs\<close> does, \<open>Compute\<close> depends on the image handed
  to \<open>computeMean\<close> and \<open>computeHash\<close> through its bounds and its red channel only.\<close>

lemma Compute_red_of_grayscaled:
  assumes "same_red (gs (rsz a 8 8)) (gs (rsz b 8 8))"
  shows "Compute rsz gs a = Compute rsz gs b"
proof -
  have p: "pixels (gs (rsz a 8 8)) = pixels (gs (rsz b 8 8))"
    by (rule same_red_pixels [OF assms])
  have b: "Bounds (gs (rsz a 8 8)) = Bounds (gs (rsz b 8 8))"
    using assms by (simp add: same_red_def)
  have m: "computeMean (gs (rsz a 8 8)) = computeMean (gs (rsz b 8 8))"
    by (simp add: computeMean_pixels Let_def p b)
  show ?thesis by (simp add: Compute_def Let_def m computeHash_pixels p)
qed

text \<open>C1. The mean and the per-pixel comparisons of \<open>Compute\<close> read only the red
  channel of each pixel of the resized image: two inputs whose resized images have the
  same bounds and the same red values give the same mean, the same hash for every mean,
  and the same result of \<open>Compute\<close>, whatever their green, blue and alpha values are.
  The grayscale step is the one modelled from the spec, which retains the pixels.\<close>

theorem Compute_reads_red_channel_only:
  assumes "same_red (rsz a 8 8) (rsz b 8 8)"
  shows "computeMean (rsz a 8 8) = computeMean (rsz b 8 8) \<and>
         computeHash (rsz a 8 8) mean = computeHash (rsz b 8 8) mean \<and>
         Compute rsz grayscale a = Compute rsz grayscale b"
proof -
  have p: "pixels (rsz a 8 8) = pixels (rsz b 8 8)" by (rule same_red_pixels [OF assms])
  have b: "Bounds (rsz a 8 8) = Bounds (rsz b 8 8)" using assms by (simp add: same_red_def)
  have m: "computeMean (rsz a 8 8) = computeMean (rsz b 8 8)"
    by (simp add: computeMean_pixels Let_def p b)
  have h: "computeHash (rsz a 8 8) mean = computeHash (rsz b 8 8) mean"
    by (simp add: computeHash_pixels p)
  have "same_red (grayscale (rsz a 8 8)) (grayscale (rsz b 8 8))"
    using assms by (simp add: grayscale_def)
  then have "Compute rsz grayscale a = Compute rsz grayscale b"
    by (rule Compute_red_of_grayscaled)
  then show ?thesis using m h by simp
qed

theorem Compute_reads_red_channel_only_witness:
  "same_red (nearest red_stripes 8 8) (nearest tinted_stripes 8 8) \<and>
   At red_stripes 0 0 \<noteq> At tinted_stripes 0 0 \<and>
   computeMean (nearest red_stripes 8 8) = computeMean (nearest tinted_stripes 8 8) \<and>
   computeHash (nearest red_stripes 8 8) 25000 = computeHash (nearest tinted_stripes 8 8) 25000 \<and>
   Compute nearest grayscale red_stripes = Compute nearest grayscale tinted_stripes"
proof -
  have s: "same_red (nearest red_stripes 8 8) (nearest tinted_stripes 8 8)"
    by (simp add: same_red_def nearest_def red_stripes_def tinted_stripes_def rect_def RGBA_r_def)
  have d: "At red_stripes 0 0 \<noteq> At tinted_stripes 0 0"
    by (simp add: red_stripes_def tinted_stripes_def)
  show ?thesis
    using s d Compute_reads_red_channel_only [of nearest red_stripes tinted_stripes 25000] by blast
qed

text \<open>C2. For the 8 by 8 checkerboard of intensities 0 and 65535, in either phase,
  \<open>computeMean\<close> returns 32767, and in the hash computed with that mean exactly the
  bits at the row-major positions of the cells of intensity 65535 are set.\<close>

theorem checkerboard_mean_and_hash:
  "computeMean (checkerboard b) = 32767 \<and>
   (bit (computeHash (checkerboard b) (computeMean (checkerboard b))) i \<longleftrightarrow>
      i < 64 \<and> RGBA_r (At (checkerboard b) (of_nat (i mod 8)) (of_nat (i div 8))) = 65535) \<and>
   computeHash (checkerboard False) (computeMean (checkerboard False)) = 0x55AA55AA55AA55AA \<and>
   computeHash (checkerboard True) (computeMean (checkerboard True)) = 0xAA55AA55AA55AA55"
proof -
  have "bit (computeHash (checkerboard b) 32767) i \<longleftrightarrow>
      i < 64 \<and> RGBA_r (At (checkerboard b) (of_nat (i mod 8)) (of_nat (i div 8))) = 65535"
  proof (cases "i < 64")
    case True
    then show ?thesis
      using hash_bit_8x8 [OF checkerboard_facts(1) True, of b 32767]
      by (simp add: checkerboard_facts)
  next
    case False
    then have "\<not> bit (computeHash (checkerboard b) 32767) i"
      using bit_imp_le_length [of "computeHash (checkerboard b) 32767" i] by auto
    then show ?thesis using False by simp
  qed
  then show ?thesis
    by (simp add: computeMean_checkerboard computeHash_checkerboard)
qed

text \<open>C3. For an 8 by 8 image whose red intensities lie in the 16-bit range of the data
  model, the hash computed with the image's own mean never has all 64 bits set: at most
  63 bits are set.\<close>

theorem hash_never_all_ones:
  assumes "is8x8 img" and "depth16 img"
  shows "computeHash img (computeMean img) \<noteq> 0xFFFFFFFFFFFFFFFF \<and>
         card {i. bit (computeHash img (computeMean img)) i} \<le> 63"
proof -
  let ?h = "computeHash img (computeMean img)"
  obtain i where i: "i < 64" "\<not> bit ?h i" using some_bit_clear [OF assms] by blast
  have "bit (0xFFFFFFFFFFFFFFFF :: uint64) i"
  proof -
    have "(0xFFFFFFFFFFFFFFFF :: uint64) = - 1" by simp
    then show ?thesis using i(1) by (simp only: bit_minus_1_iff) simp
  qed
  then have ne: "?h \<noteq> 0xFFFFFFFFFFFFFFFF" using i(2) by metis
  have "{n. bit ?h n} \<subseteq> {..<64} - {i}"
    using i(2) bit_imp_le_length [of ?h] by auto
  then have "card {n. bit ?h n} \<le> card ({..<64 :: nat} - {i})"
    by (intro card_mono) simp_all
  also have "\<dots> = 63" using i(1) by simp
  finally show ?thesis using ne by simp
qed

theorem hash_never_all_ones_witness:
  "is8x8 (checkerboard True) \<and> depth16 (checkerboard True) \<and>
   computeHash (checkerboard True) (computeMean (checkerboard True)) \<noteq> 0xFFFFFFFFFFFFFFFF \<and>
   card {i. bit (computeHash (checkerboard True) (computeMean (checkerboard True))) i} \<le> 63"
proof -
  have a: "is8x8 (checkerboard True)" by (rule checkerboard_facts)
  have b: "depth16 (checkerboard True)" by (simp add: depth16_def checkerboard_facts)
  show ?thesis using a b hash_never_all_ones [OF a b] by blast
qed

text \<open>C4. For an image whose rectangle has zero width or zero height, \<open>computeMean\<close>
  returns 0 and the hash computed with that mean is 0. Both are ordinary results: the
  model of the two functions has no error value.\<close>

theorem zero_area_mean_and_hash:
  assumes "maxX img = minX img \<or> maxY img = minY img"
  shows "computeMean img = 0 \<and> computeHash img (computeMean img) = 0"
proof -
  have "(maxX img - minX img) * (maxY img - minY img) = 0" using assms by auto
  then have "computeMean img = 0" by (simp add: computeMean_def)
  moreover have "computeHash img m = 0" for m
    by (simp add: computeHash_pixels pixels_empty [OF assms])
  ultimately show ?thesis by simp
qed

theorem zero_area_mean_and_hash_witness:
  "(maxX zero_width_image = minX zero_width_image \<or> maxY zero_width_image = minY zero_width_image) \<and>
   computeMean zero_width_image = 0 \<and>
   computeHash zero_width_image (computeMean zero_width_image) = 0"
proof -
  have h: "maxX zero_width_image = minX zero_width_image \<or> maxY zero_width_image = minY zero_width_image"
    by (simp add: zero_width_image_def rect_def)
  show ?thesis using h zero_area_mean_and_hash [OF h] by blast
qed

text \<open>C5. \<open>computeHash\<close> visits the pixels in row-major order with a bit counter that
  starts at 0 and is incremented once per pixel, whether or not the bit is set: after
  the loops the counter is the number of pixels (as a \<open>uint64\<close>). For an 8 by 8 image
  the counter ends at 64, bit \<open>i\<close> belongs to the pixel in column \<open>i mod 8\<close> of row
  \<open>i div 8\<close>, bit 0 to the pixel at (minX, minY) and bit 63 to the pixel at
  (maxX - 1, maxY - 1).\<close>

theorem computeHash_row_major:
  "snd (hashRows img mean (minY img) (0, 0)) = of_nat (pixel_count img) \<and>
   (is8x8 img \<longrightarrow>
     snd (hashRows img mean (minY img) (0, 0)) = 64 \<and>
     (\<forall>i<64. bit (computeHash img mean) i \<longleftrightarrow>
         mean < RGBA_r (At img (minX img + of_nat (i mod 8)) (minY img + of_nat (i div 8)))) \<and>
     (bit (computeHash img mean) 0 \<longleftrightarrow> mean < RGBA_r (At img (minX img) (minY img))) \<and>
     (bit (computeHash img mean) 63 \<longleftrightarrow> mean < RGBA_r (At img (maxX img - 1) (maxY img - 1))))"
proof -
  have "snd (hashRows img mean (minY img) (0, 0)) = 64 \<and>
     (\<forall>i<64. bit (computeHash img mean) i \<longleftrightarrow>
         mean < RGBA_r (At img (minX img + of_nat (i mod 8)) (minY img + of_nat (i div 8)))) \<and>
     (bit (computeHash img mean) 0 \<longleftrightarrow> mean < RGBA_r (At img (minX img) (minY img))) \<and>
     (bit (computeHash img mean) 63 \<longleftrightarrow> mean < RGBA_r (At img (maxX img - 1) (maxY img - 1)))"
    if assms: "is8x8 img"
  proof -
    have "snd (hashRows img mean (minY img) (0, 0)) = 64"
      using hashRows_counter [of img mean] is8x8_facts(3) [OF assms] by simp
    moreover have "bit (computeHash img mean) 0 \<longleftrightarrow> mean < RGBA_r (At img (minX img) (minY img))"
      using hash_bit_8x8 [OF assms, of 0 mean] by simp
    moreover have "bit (computeHash img mean) 63 \<longleftrightarrow>
        mean < RGBA_r (At img (maxX img - 1) (maxY img - 1))"
      using hash_bit_8x8 [OF assms, of 63 mean] is8x8_facts(5,6) [OF assms]
      by (simp add: add.commute)
    ultimately show ?thesis using hash_bit_8x8 [OF assms] by blast
  qed
  then show ?thesis using hashRows_counter [of img mean] by blast
qed

theorem computeHash_row_major_witness:
  "is8x8 (checkerboard True) \<and>
   snd (hashRows (checkerboard True) 32767 (minY (checkerboard True)) (0, 0)) = 64 \<and>
   bit (computeHash (checkerboard True) 32767) 0 \<and>
   \<not> bit (computeHash (checkerboard True) 32767) 1 \<and>
   bit (computeHash (checkerboard True) 32767) 63"
proof -
  let ?c = "checkerboard True"
  have h: "is8x8 ?c" by (rule checkerboard_facts)
  note t = computeHash_row_major [of ?c 32767]
  have n: "snd (hashRows ?c 32767 (minY ?c) (0, 0)) = 64" using t h by blast
  have "\<forall>i<64. bit (computeHash ?c 32767) i \<longleftrightarrow>
      32767 < RGBA_r (At ?c (minX ?c + of_nat (i mod 8)) (minY ?c + of_nat (i div 8)))"
    using t h by blast
  then have "bit (computeHash ?c 32767) 1 \<longleftrightarrow>
      32767 < RGBA_r (At ?c (minX ?c + of_nat (1 mod 8)) (minY ?c + of_nat (1 div 8)))"
    by simp
  then have b1: "\<not> bit (computeHash ?c 32767) 1" by (simp add: checkerboard_facts)
  have "bit (computeHash ?c 32767) 0 \<longleftrightarrow> 32767 < RGBA_r (At ?c (minX ?c) (minY ?c))"
    using t h by blast
  then have b0: "bit (computeHash ?c 32767) 0" by (simp add: checkerboard_facts)
  have "bit (computeHash ?c 32767) 63 \<longleftrightarrow> 32767 < RGBA_r (At ?c (maxX ?c - 1) (maxY ?c - 1))"
    using t h by blast
  then have b63: "bit (computeHash ?c 32767) 63"
    by (simp add: checkerboard_facts bounds_checkerboard rect_def)
  show ?thesis using h n b0 b1 b63 by simp
qed

text \<open>C6. A pixel's bit is set if and only if its red intensity is strictly greater
  than the supplied mean, for every image and every mean. First, an iteration on a pixel
  equal to the mean leaves the value unchanged. Second, a bit of the hash is set if and
  only if a pixel counted at that bit position is strictly greater than the mean;
  positions are counted by the \<open>uint64\<close> counter, so modulo \<open>2 ^ 64\<close>. Third, in an image
  of at most \<open>2 ^ 64\<close> pixels each of the first 64 pixels has a bit of its own: it is set
  if and only if the pixel is strictly greater than the mean, and a pixel equal to the
  mean leaves it unset.\<close>

theorem bit_set_iff_strictly_greater:
  "(x <s maxX img \<and> RGBA_r (At img x y) = mean \<longrightarrow>
      hashCols img mean y x (val, bitpos) = hashCols img mean y (x + 1) (val, bitpos + 1)) \<and>
   (bit (computeHash img mean) i \<longleftrightarrow>
      i < 64 \<and> (\<exists>x y. inBounds img x y \<and> pixel_index img x y mod 2 ^ 64 = i \<and>
                       mean < RGBA_r (At img x y))) \<and>
   (pixel_count img \<le> 2 ^ 64 \<and> inBounds img x y \<and> pixel_index img x y < 64 \<longrightarrow>
      (bit (computeHash img mean) (pixel_index img x y) \<longleftrightarrow> mean < RGBA_r (At img x y)) \<and>
      (RGBA_r (At img x y) = mean \<longrightarrow> \<not> bit (computeHash img mean) (pixel_index img x y)))"
proof -
  have s: "hashCols img mean y x (val, bitpos) = hashCols img mean y (x + 1) (val, bitpos + 1)"
    if "x <s maxX img" "RGBA_r (At img x y) = mean"
    using that by (subst hashCols.simps) simp
  have "bit (computeHash img mean) (pixel_index img x y) \<longleftrightarrow> mean < RGBA_r (At img x y)"
    if "pixel_count img \<le> 2 ^ 64" "inBounds img x y" "pixel_index img x y < 64"
    using hash_bit_small [OF that(1), of mean "pixel_index img x y"]
      inBounds_index(1) [OF that(2)] pixels_at [OF that(2)] that(3) by simp
  then show ?thesis using s computeHash_bit [of img mean i] by auto
qed

theorem bit_set_iff_strictly_greater_witness:
  "(0 :: go_int) <s maxX (checkerboard True) \<and>
   pixel_count (checkerboard True) \<le> 2 ^ 64 \<and> inBounds (checkerboard True) 0 0 \<and>
   pixel_index (checkerboard True) 0 0 < 64 \<and>
   RGBA_r (At (checkerboard True) 0 0) = 0xFFFF \<and>
   hashCols (checkerboard True) 0xFFFF 0 0 (0, 0) = hashCols (checkerboard True) 0xFFFF 0 1 (0, 1) \<and>
   \<not> bit (computeHash (checkerboard True) 0xFFFF) (pixel_index (checkerboard True) 0 0) \<and>
   bit (computeHash (checkerboard True) 0xFFFE) (pixel_index (checkerboard True) 0 0)"
proof -
  have m: "(0 :: go_int) <s maxX (checkerboard True)"
    by (simp add: bounds_checkerboard rect_def word_sless_alt)
  have c: "pixel_count (checkerboard True) \<le> 2 ^ 64"
    using is8x8_facts(3) [OF checkerboard_facts(1) [of True]] by simp
  have i: "inBounds (checkerboard True) 0 0"
    by (simp add: inBounds_def checkerboard_def rect_def word_sle_eq word_sless_alt)
  have p: "pixel_index (checkerboard True) 0 0 < 64"
    by (simp add: pixel_index_def checkerboard_def rect_def)
  have r: "RGBA_r (At (checkerboard True) 0 0) = 0xFFFF"
    by (simp add: checkerboard_facts)
  show ?thesis
    using m c i p r
      bit_set_iff_strictly_greater [of 0 "checkerboard True" 0 "0xFFFF" 0 0 0]
      bit_set_iff_strictly_greater [of 0 "checkerboard True" 0 "0xFFFE" 0 0 0]
    by simp
qed

text \<open>C7, as stated, fails on the all-white image of 256 by 257 pixels: the \<open>uint32\<close>
  accumulator wraps around, \<open>computeMean\<close> returns 254 instead of 65535, and the hash
  computed with that mean has all 64 bits set.\<close>

theorem uniform_mean_counterexample:
  "nonempty white_256x257 \<and> uniform white_256x257 0xFFFF \<and>
   computeMean white_256x257 = 254 \<and>
   computeHash white_256x257 (computeMean white_256x257) = 0xFFFFFFFFFFFFFFFF"
proof -
  have "computeHash white_256x257 254 = - 1"
  proof (rule bit_eqI)
    fix i
    have "bit (computeHash white_256x257 254) i \<longleftrightarrow> i < 64"
      using hash_bit_small [of white_256x257 254 i]
      by (auto simp: white_256x257_facts(3) uniform_pixels [OF white_256x257_facts(2)])
    then show "bit (computeHash white_256x257 254) i \<longleftrightarrow> bit (- 1 :: uint64) i"
      by (simp add: bit_minus_1_iff)
  qed
  then show ?thesis
    by (simp add: white_256x257_facts white_256x257_mean)
qed

text \<open>C7, amended. For a non-empty image in which every pixel has the same red
  intensity \<open>v\<close> and whose pixel count times \<open>v\<close> is below \<open>2 ^ 32\<close> (every 8 by 8 image
  with 16-bit intensities is one), \<open>computeMean\<close> returns \<open>v\<close> and the hash computed with
  that mean is 0.\<close>

theorem uniform_mean_and_hash:
  assumes "nonempty img" and "uniform img v" and "pixel_count img * unat v < 2 ^ 32"
  shows "computeMean img = v \<and> computeHash img (computeMean img) = 0"
proof -
  have n: "0 < pixel_count img" by (rule nonempty_count [OF assms(1)])
  have s: "channel_sum img = pixel_count img * unat v" by (rule uniform_sum [OF assms(2)])
  have "unat (computeMean img) = unat v"
  proof (cases "unat v = 0")
    case True
    then show ?thesis using unat_computeMean [OF assms(1)] s by simp
  next
    case False
    then have "pixel_count img * 1 \<le> pixel_count img * unat v"
      by (intro mult_le_mono2) simp
    then have c: "pixel_count img < 2 ^ 32" using assms(3) by linarith
    have "channel_sum img < 2 ^ 32" using s assms(3) by simp
    from computeMean_exact [OF assms(1) c this] show ?thesis using s n by simp
  qed
  then have "computeMean img = v" by (simp add: word_unat_eq_iff)
  then show ?thesis using uniform_hash [OF assms(2)] by simp
qed

theorem uniform_mean_and_hash_witness:
  "nonempty gray_8x8 \<and> uniform gray_8x8 1234 \<and> pixel_count gray_8x8 * unat (1234 :: uint32) < 2 ^ 32 \<and>
   computeMean gray_8x8 = 1234 \<and> computeHash gray_8x8 (computeMean gray_8x8) = 0"
proof -
  have c: "pixel_count gray_8x8 * unat (1234 :: uint32) < 2 ^ 32"
    by (simp add: gray_8x8_facts)
  show ?thesis
    using c gray_8x8_facts(1,2) uniform_mean_and_hash [OF gray_8x8_facts(1,2) c] by blast
qed

text \<open>C8, as stated, fails on the all-white image of 300 by 300 pixels: the sum of the
  red intensities divided by the pixel count is 65535, and \<open>computeMean\<close> returns
  17813, since the \<open>uint32\<close> accumulator wraps around.\<close>

theorem computeMean_quotient_counterexample:
  "nonempty white_300x300 \<and>
   channel_sum white_300x300 div pixel_count white_300x300 = 65535 \<and>
   unat (computeMean white_300x300) = 17813"
  using unat_computeMean [OF white_300x300_facts(1)]
  by (simp add: uniform_sum [OF white_300x300_facts(2)] white_300x300_facts)

text \<open>C8, amended. For a non-empty image with fewer than \<open>2 ^ 32\<close> pixels whose red
  intensities sum to less than \<open>2 ^ 32\<close>, the accumulator holds the exact sum and
  \<open>computeMean\<close> is the truncating quotient of the sum by the pixel count. For an 8 by 8
  image with 16-bit intensities the sum is at most \<open>64 * 65535\<close>, which is below
  \<open>2 ^ 32\<close>: the accumulator does not overflow and the mean is the sum divided by 64.\<close>

theorem computeMean_truncating_quotient:
  "(nonempty img \<and> pixel_count img < 2 ^ 32 \<and> channel_sum img < 2 ^ 32 \<longrightarrow>
      unat (meanRows img (minY img) 0) = channel_sum img \<and>
      unat (computeMean img) = channel_sum img div pixel_count img) \<and>
   (is8x8 img \<and> depth16 img \<longrightarrow>
      channel_sum img \<le> 64 * 65535 \<and> channel_sum img < 2 ^ 32 \<and>
      unat (meanRows img (minY img) 0) = channel_sum img \<and>
      unat (computeMean img) = channel_sum img div 64)"
proof -
  have acc: "unat (meanRows img (minY img) 0) = channel_sum img" if "channel_sum img < 2 ^ 32"
    using that by (simp add: meanRows_pixels unat_sum_list channel_sum_def)
  have a: "unat (computeMean img) = channel_sum img div pixel_count img"
    if "nonempty img" "pixel_count img < 2 ^ 32" "channel_sum img < 2 ^ 32"
    using computeMean_exact that by blast
  have b: "channel_sum img \<le> 64 * 65535 \<and> channel_sum img < 2 ^ 32 \<and>
      unat (computeMean img) = channel_sum img div 64"
    if "is8x8 img" "depth16 img"
    using mean_8x8 [OF that] by simp
  show ?thesis using acc a b by blast
qed

theorem computeMean_truncating_quotient_witness:
  "nonempty (checkerboard True) \<and> pixel_count (checkerboard True) < 2 ^ 32 \<and>
   channel_sum (checkerboard True) < 2 ^ 32 \<and>
   is8x8 (checkerboard True) \<and> depth16 (checkerboard True) \<and>
   channel_sum (checkerboard True) = 2097120 \<and>
   unat (meanRows (checkerboard True) (minY (checkerboard True)) 0) = 2097120 \<and>
   unat (computeMean (checkerboard True)) = 2097120 div 64"
proof -
  have a: "is8x8 (checkerboard True)" by (rule checkerboard_facts)
  have b: "depth16 (checkerboard True)" by (simp add: depth16_def checkerboard_facts)
  have s: "channel_sum (checkerboard True) = 2097120"
    by (simp add: channel_sum_def pixels_checkerboard)
  show ?thesis
    using a b s is8x8_facts(3,4) [OF a] computeMean_truncating_quotient [of "checkerboard True"]
    by simp
qed

text \<open>C9. Two images for which the resize collaborator returns the same 8 by 8 grid,
  that is, results with the same bounds and pixel for pixel the same colours in the
  rectangle, have the same \<open>Compute\<close> result, whatever their own bounds are. This holds
  with the grayscale step modelled from the spec, and with every grayscale step that
  reads its input through the bounds and the pixels of the rectangle.\<close>

theorem Compute_same_grid:
  assumes "same_grid (rsz a 8 8) (rsz b 8 8)"
  shows "Compute rsz grayscale a = Compute rsz grayscale b \<and>
         (grid_step gs \<longrightarrow> Compute rsz gs a = Compute rsz gs b)"
proof -
  have "same_red (grayscale (rsz a 8 8)) (grayscale (rsz b 8 8))"
    using same_grid_red [OF assms] by (simp add: grayscale_def)
  then have g: "Compute rsz grayscale a = Compute rsz grayscale b"
    by (rule Compute_red_of_grayscaled)
  have "Compute rsz gs a = Compute rsz gs b" if "grid_step gs"
  proof -
    have "same_red (gs (rsz a 8 8)) (gs (rsz b 8 8))"
      using that assms by (simp add: grid_step_def)
    then show ?thesis by (rule Compute_red_of_grayscaled)
  qed
  then show ?thesis using g by blast
qed

theorem Compute_same_grid_witness:
  "same_grid (nearest (checkerboard True) 8 8) (nearest wide_checkerboard 8 8) \<and>
   Bounds (checkerboard True) \<noteq> Bounds wide_checkerboard \<and>
   grid_step luminance \<and>
   Compute nearest grayscale (checkerboard True) = Compute nearest grayscale wide_checkerboard \<and>
   Compute nearest luminance (checkerboard True) = Compute nearest luminance wide_checkerboard \<and>
   Compute nearest grayscale (checkerboard True) = 0xAA55AA55AA55AA55"
proof -
  have d: "Bounds (checkerboard True) \<noteq> Bounds wide_checkerboard"
    by (simp add: checkerboard_def wide_checkerboard_def rect_def)
  have r: "same_red (nearest (checkerboard True) 8 8) (checkerboard True)"
    by (rule same_grid_red [OF nearest_checkerboard_grid])
  have v: "Compute nearest grayscale (checkerboard True) = 0xAA55AA55AA55AA55"
    by (simp add: Compute_def grayscale_def same_red_mean_hash [OF r]
        computeMean_checkerboard computeHash_checkerboard)
  show ?thesis
    using nearest_wide_grid d grid_step_luminance v
      Compute_same_grid [of nearest "checkerboard True" wide_checkerboard luminance]
    by blast
qed

text \<open>C10, as stated, fails on two images of \<open>2 ^ 62\<close> columns and 5 rows that agree on
  their first 64 pixels and differ at the pixel of row-major position \<open>2 ^ 64\<close>: there
  the \<open>uint64\<close> counter has wrapped around to 0, and the pixel sets bit 0.\<close>

theorem first_64_pixels_counterexample:
  "take 64 (pixels huge_black) = take 64 (pixels huge_dotted) \<and>
   computeHash huge_black 0 = 0 \<and> computeHash huge_dotted 0 = 1"
proof -
  have a: "pixels huge_black ! k = 0" if "k < 64" for k
  proof -
    have "k < pixel_count huge_black" using that by (simp add: huge_facts)
    from pixels_nth [OF this] show ?thesis
      by (simp add: huge_black_def gray_def RGBA_r_def)
  qed
  have b: "pixels huge_dotted ! k = 0" if "k < 64" for k
  proof -
    have k: "k < pixel_count huge_dotted" "k div 2 ^ 62 = 0" using that by (simp_all add: huge_facts)
    have "RGBA_r (At huge_dotted x 0) = 0" for x
      by (simp add: huge_dotted_def gray_def RGBA_r_def)
    then show ?thesis using pixels_nth [OF k(1)] k(2) by (simp add: huge_facts)
  qed
  have t: "take 64 (pixels huge_black) = take 64 (pixels huge_dotted)"
    by (rule nth_equalityI) (simp_all add: length_pixels huge_facts a b)
  have "uniform huge_black 0" by (simp add: uniform_def huge_black_def gray_def RGBA_r_def)
  then have h0: "computeHash huge_black 0 = 0" by (rule uniform_hash)
  have h1: "computeHash huge_dotted 0 = 1"
  proof (rule bit_eqI)
    fix i
    have in4: "inBounds huge_dotted 0 4"
      by (simp add: inBounds_def huge_dotted_def rect_def word_sle_eq word_sless_alt)
    have idx: "pixel_index huge_dotted 0 4 = 2 ^ 64"
      by (simp add: pixel_index_def huge_facts)
    have r: "RGBA_r (At huge_dotted x y) = (if x = 0 \<and> y = 4 then 1 else 0)" for x y
      by (simp add: huge_dotted_def gray_def RGBA_r_def)
    have "bit (computeHash huge_dotted 0) i \<longleftrightarrow> i = 0"
    proof
      assume "bit (computeHash huge_dotted 0) i"
      then obtain x y where "inBounds huge_dotted x y" "pixel_index huge_dotted x y mod 2 ^ 64 = i"
          "0 < RGBA_r (At huge_dotted x y)"
        unfolding computeHash_bit by blast
      then have "x = 0 \<and> y = 4" "pixel_index huge_dotted x y mod 2 ^ 64 = i"
        by (simp_all add: r split: if_splits)
      then show "i = 0" using idx by simp
    next
      assume "i = 0"
      then have "i < 64 \<and> inBounds huge_dotted 0 4 \<and> pixel_index huge_dotted 0 4 mod 2 ^ 64 = i \<and>
          0 < RGBA_r (At huge_dotted 0 4)"
        using in4 idx by (simp add: r)
      then show "bit (computeHash huge_dotted 0) i"
        unfolding computeHash_bit by blast
    qed
    then show "bit (computeHash huge_dotted 0) i \<longleftrightarrow> bit (1 :: uint64) i"
      by (simp add: bit_1_iff)
  qed
  show ?thesis using t h0 h1 by simp
qed

text \<open>C10, amended. \<open>computeHash\<close> is a total function of images of any size. An
  iteration whose bit counter is 64 or more leaves the value unchanged, since the shift
  gives 0. For images of at most \<open>2 ^ 64\<close> pixels, the pixels after the 64th visited do
  not affect the result: two such images with the same first 64 pixels in row-major
  order have the same hash.\<close>

theorem hash_depends_on_first_64_pixels:
  "(64 \<le> unat bitpos \<and> x <s maxX img \<longrightarrow>
      hashCols img mean y x (val, bitpos) = hashCols img mean y (x + 1) (val, bitpos + 1)) \<and>
   (pixel_count a \<le> 2 ^ 64 \<and> pixel_count b \<le> 2 ^ 64 \<and>
    take 64 (pixels a) = take 64 (pixels b) \<longrightarrow> computeHash a mean = computeHash b mean)"
proof -
  have "push_bit (unat bitpos) (1 :: uint64) = 0" if "64 \<le> unat bitpos"
    using that by (intro bit_eqI) (auto simp: bit_simps)
  then have s: "hashCols img mean y x (val, bitpos) = hashCols img mean y (x + 1) (val, bitpos + 1)"
    if "64 \<le> unat bitpos" "x <s maxX img"
    using that by (subst hashCols.simps) (simp del: push_bit_of_1)
  have "computeHash a mean = computeHash b mean"
    if "pixel_count a \<le> 2 ^ 64" "pixel_count b \<le> 2 ^ 64" "take 64 (pixels a) = take 64 (pixels b)"
    by (rule bit_eqI) (simp only: hash_of_prefix [OF that(1)] hash_of_prefix [OF that(2)] that(3))
  then show ?thesis using s by blast
qed

theorem hash_depends_on_first_64_pixels_witness:
  "64 \<le> unat (64 :: uint64) \<and> (0 :: go_int) <s maxX tall_plain \<and>
   hashCols tall_plain 7 8 0 (5, 64) = hashCols tall_plain 7 8 1 (5, 65) \<and>
   pixel_count tall_plain \<le> 2 ^ 64 \<and> pixel_count tall_marked \<le> 2 ^ 64 \<and>
   take 64 (pixels tall_plain) = take 64 (pixels tall_marked) \<and>
   pixels tall_plain \<noteq> pixels tall_marked \<and>
   computeHash tall_plain 50 = computeHash tall_marked 50"
proof -
  have c: "pixel_count tall_plain \<le> 2 ^ 64" "pixel_count tall_marked \<le> 2 ^ 64"
    by (simp_all add: pixel_count_def width_def height_def tall_plain_def tall_marked_def rect_def)
  have t: "take 64 (pixels tall_plain) = take 64 (pixels tall_marked)"
    by (simp add: tall_pixels)
  have n: "pixels tall_plain \<noteq> pixels tall_marked"
  proof
    assume "pixels tall_plain = pixels tall_marked"
    then have "pixels tall_plain ! 64 = pixels tall_marked ! 64" by simp
    then show False by (simp add: tall_pixels)
  qed
  have u: "64 \<le> unat (64 :: uint64)" by simp
  have x: "(0 :: go_int) <s maxX tall_plain"
    by (simp add: tall_plain_def rect_def word_sless_alt)
  show ?thesis
    using c t n u x
      hash_depends_on_first_64_pixels [of 64 0 tall_plain 7 8 5 tall_plain tall_marked]
      hash_depends_on_first_64_pixels [of 64 0 tall_plain 50 8 5 tall_plain tall_marked]
    by simp
qed

end
